theory Spec2Isabelle
  imports Complex_Main "HOL-Library.Signed_Division"
begin

section \<open>Conventions of the embedding\<close>

text \<open>
  The program is \<^verbatim>\<open>a2-task.cpp\<close>. Its \<^verbatim>\<open>double\<close> and \<^verbatim>\<open>complex<double>\<close> values are
  idealised as \<^typ>\<open>real\<close> and \<^typ>\<open>complex\<close>: rounding, infinities and NaN are not
  modelled. Its \<^verbatim>\<open>int\<close> values are \<^typ>\<open>int\<close>; no claim depends on 32-bit overflow.
  Integer division is the truncating \<open>sdiv\<close>, and a division by zero, an index outside
  the 3-entry pixel buffer and an index outside the kernel matrix (all undefined
  behaviour in C++) are error values of the model, and so is a negative vector length.
  The OpenMP tasks of one dispatch are run one after the other, in the order in which the
  \<^verbatim>\<open>single\<close> region creates them; the tasks of one dispatch write disjoint columns.
\<close>

datatype error = DivisionByZero | PixelIndexOutOfRange | KernelIndexOutOfRange | BadVectorLength

subsection \<open>Counted loops\<close>

text \<open>
  \<^verbatim>\<open>for (int i = a; i < b; i++) body\<close>, where the body does not assign \<^verbatim>\<open>i\<close>. The state
  is threaded through the body; an error of the body ends the loop.
\<close>

function for_loop :: "int \<Rightarrow> int \<Rightarrow> (int \<Rightarrow> 's \<Rightarrow> error + 's) \<Rightarrow> 's \<Rightarrow> error + 's" where
  "for_loop a b body s =
     (if a < b
      then (case body a s of Inl e \<Rightarrow> Inl e | Inr s' \<Rightarrow> for_loop (a + 1) b body s')
      else Inr s)"
  by pat_completeness auto
termination
  by (relation "measure (\<lambda>(a, b, body, s). nat (b - a))") auto

declare for_loop.simps [simp del]

section \<open>The escape kernel\<close>

definition max_iterations :: int where
  "max_iterations = 2048"

text \<open>
  The loop of \<^verbatim>\<open>mandelbrot_kernel\<close>:
  \<^verbatim>\<open>while (abs(z) <= 4 && (iteration < max_iterations)) { z = z * z + c; iteration++; }\<close>
  It returns the last \<open>z\<close> and the iteration count.
\<close>

function mandelbrot_loop :: "complex \<Rightarrow> complex \<Rightarrow> int \<Rightarrow> complex \<times> int" where
  "mandelbrot_loop c z iteration =
     (if cmod z \<le> 4 \<and> iteration < max_iterations
      then mandelbrot_loop c (z * z + c) (iteration + 1)
      else (z, iteration))"
  by pat_completeness auto
termination
  by (relation "measure (\<lambda>(c, z, iteration). nat (max_iterations - iteration))") auto

declare mandelbrot_loop.simps [simp del]

type_synonym rgb = "int \<times> int \<times> int"

text \<open>
  Modelled from the spec: \<^verbatim>\<open>colorize\<close> and the gradient type are declared in
  \<^verbatim>\<open>a2-helpers.hpp\<close>, which is not part of the sources. The spec (4.1, 4.2) says that it
  fills the output pixel buffer with an RGB triplet computed from the smooth index \<open>q\<close> and
  the iteration count. It is a parameter \<open>colorize\<close> of the model, taking the old
  3-entry buffer, \<open>q\<close> and the iteration count to the new 3-entry buffer; the global
  gradient table is part of that parameter.
\<close>

type_synonym colorizer = "rgb \<Rightarrow> real \<Rightarrow> int \<Rightarrow> rgb"

text \<open>
  \<^verbatim>\<open>mandelbrot_kernel\<close>, lines 24 to 46. The first value of \<open>q\<close> (line 38, from \<open>m\<close>) is
  overwritten before it is read and is left out. \<open>q\<close> only feeds \<open>colorize\<close>.
\<close>

definition mandelbrot_kernel :: "colorizer \<Rightarrow> complex \<Rightarrow> rgb \<Rightarrow> bool \<times> rgb" where
  "mandelbrot_kernel colorize c pixel =
     (let (z, iteration) = mandelbrot_loop c 0 0;
          length = sqrt (Re z * Re z + Im z * Im z);
          q = real_of_int iteration + 1 - ln (ln length) / ln 2;
          q = q / real_of_int max_iterations
      in (iteration < max_iterations, colorize pixel q iteration))"

text \<open>The orbit of the spec: \<open>z \<leftarrow> z\<^sup>2 + c\<close>, \<open>n\<close> times, from \<open>z = 0\<close>.\<close>

definition orbit :: "complex \<Rightarrow> nat \<Rightarrow> complex" where
  "orbit c n = ((\<lambda>z. z * z + c) ^^ n) 0"

text \<open>
  The loop stops at radius \<open>r\<close> after \<open>n\<close> iterations: \<open>n\<close> is within the budget, every
  earlier \<open>z\<close> was within the radius, and at \<open>n\<close> either \<open>z\<close> is outside the radius or the
  budget is exhausted.
\<close>

definition stops_at :: "real \<Rightarrow> complex \<Rightarrow> nat \<Rightarrow> bool" where
  "stops_at r c n \<longleftrightarrow>
     int n \<le> max_iterations \<and>
     (\<forall>m < n. cmod (orbit c m) \<le> r) \<and>
     (r < cmod (orbit c n) \<or> int n = max_iterations)"

section \<open>Images\<close>

text \<open>
  Modelled from the spec: the class \<^verbatim>\<open>Image\<close> is declared in \<^verbatim>\<open>a2-helpers.hpp\<close>, which is
  not part of the sources. The spec (3, 6) gives it the dimensions \<^verbatim>\<open>channels\<close>,
  \<^verbatim>\<open>height\<close>, \<^verbatim>\<open>width\<close> and indexed access \<^verbatim>\<open>image(channel, row, col)\<close> to integer
  samples, for reading and for writing. The samples are a function of the coordinates;
  the spec does not say how they are laid out, nor what an access outside the dimensions
  does. Copying an \<^verbatim>\<open>Image\<close> copies its dimensions and its samples.
\<close>

record Image =
  channels :: int
  height :: int
  width :: int
  data :: "int \<times> int \<times> int \<Rightarrow> int"

definition img_get :: "Image \<Rightarrow> int \<Rightarrow> int \<Rightarrow> int \<Rightarrow> int" where
  "img_get im ch row col = data im (ch, row, col)"

definition img_set :: "Image \<Rightarrow> int \<Rightarrow> int \<Rightarrow> int \<Rightarrow> int \<Rightarrow> Image" where
  "img_set im ch row col v = im\<lparr>data := (data im)((ch, row, col) := v)\<rparr>"

section \<open>Domain tiling\<close>

text \<open>
  The index range of one task, as \<^verbatim>\<open>mandelbrot\<close> (lines 70 to 72) and
  \<^verbatim>\<open>convolution_2d_helper\<close> (lines 117 to 122) compute it:
  \<^verbatim>\<open>int w_size = w/task_size;\<close> and a loop from \<^verbatim>\<open>task_num * w_size\<close> up to, and without,
  \<^verbatim>\<open>(task_num+1) * w_size\<close>. With a task count of zero the division is a division by
  zero: the models of the two functions return that error before they use the range.
  (\<^verbatim>\<open>h_size\<close>, from the same divisor, is never read.)
\<close>

definition task_begin :: "int \<Rightarrow> int \<Rightarrow> int \<Rightarrow> int" where
  "task_begin w task_num task_size = (let w_size = w sdiv task_size in task_num * w_size)"

definition task_end :: "int \<Rightarrow> int \<Rightarrow> int \<Rightarrow> int" where
  "task_end w task_num task_size = (let w_size = w sdiv task_size in (task_num + 1) * w_size)"

text \<open>The indices that the loop of task \<open>task_num\<close> visits.\<close>

definition task_range :: "int \<Rightarrow> int \<Rightarrow> int \<Rightarrow> int set" where
  "task_range w task_num task_size =
     {i. task_begin w task_num task_size \<le> i \<and> i < task_end w task_num task_size}"

section \<open>The fractal stage\<close>

text \<open>
  The variables that the loops of \<^verbatim>\<open>mandelbrot\<close> assign: the counter, the 3-entry pixel
  buffer \<^verbatim>\<open>vector<int> pixel = {0, 0, 0}\<close> and the image.
\<close>

record fractal_state =
  pixels_inside :: int
  pixel :: rgb
  img :: Image

text \<open>\<^verbatim>\<open>pixel[ch]\<close>: the buffer has the entries 0, 1 and 2.\<close>

definition pixel_at :: "rgb \<Rightarrow> int \<Rightarrow> error + int" where
  "pixel_at p ch =
     (case p of (r, g, b) \<Rightarrow>
        if ch = 0 then Inr r
        else if ch = 1 then Inr g
        else if ch = 2 then Inr b
        else Inl PixelIndexOutOfRange)"

text \<open>\<^verbatim>\<open>for (int ch = 0; ch < channels; ch++) image(ch, j, i) = pixel[ch];\<close>\<close>

definition write_pixel :: "rgb \<Rightarrow> int \<Rightarrow> int \<Rightarrow> int \<Rightarrow> Image \<Rightarrow> error + Image" where
  "write_pixel p chans j i im =
     for_loop 0 chans
       (\<lambda>ch im'. case pixel_at p ch of
                    Inl e \<Rightarrow> Inl e
                  | Inr v \<Rightarrow> Inr (img_set im' ch j i v))
       im"

text \<open>The complex point of pixel \<open>(i, j)\<close>: lines 76 to 79.\<close>

definition pixel_point :: "int \<Rightarrow> int \<Rightarrow> real \<Rightarrow> int \<Rightarrow> int \<Rightarrow> complex" where
  "pixel_point w h ratio i j =
     (let dx = real_of_int i / real_of_int w * ratio - 1.10;
          dy = real_of_int j / real_of_int h * 0.1 - 0.35
      in Complex dx dy)"

text \<open>The body of the inner loop of \<^verbatim>\<open>mandelbrot\<close>: lines 76 to 86.\<close>

definition mandelbrot_pixel ::
  "colorizer \<Rightarrow> int \<Rightarrow> int \<Rightarrow> int \<Rightarrow> real \<Rightarrow> int \<Rightarrow> int \<Rightarrow> fractal_state \<Rightarrow> error + fractal_state" where
  "mandelbrot_pixel colorize w h chans ratio i j st =
     (let c = pixel_point w h ratio i j;
          (inside, p) = mandelbrot_kernel colorize c (pixel st);
          n = (if inside then pixels_inside st + 1 else pixels_inside st)
      in case write_pixel p chans j i (img st) of
           Inl e \<Rightarrow> Inl e
         | Inr im \<Rightarrow> Inr \<lparr>pixels_inside = n, pixel = p, img = im\<rparr>)"

definition mandelbrot :: "colorizer \<Rightarrow> Image \<Rightarrow> real \<Rightarrow> int \<Rightarrow> int \<Rightarrow> error + int \<times> Image" where
  "mandelbrot colorize im ratio task_num task_size =
     (let h = height im; w = width im; chans = channels im;
          ratio = ratio / 10
      in if task_size = 0 then Inl DivisionByZero
         else
           case for_loop (task_begin w task_num task_size) (task_end w task_num task_size)
                  (\<lambda>i. for_loop 0 h (\<lambda>j. mandelbrot_pixel colorize w h chans ratio i j))
                  \<lparr>pixels_inside = 0, pixel = (0, 0, 0), img = im\<rparr> of
             Inl e \<Rightarrow> Inl e
           | Inr st \<Rightarrow> Inr (pixels_inside st, img st))"

text \<open>
  The dispatch of the fractal stage, lines 202 to 214 of \<^verbatim>\<open>main\<close>, with the image, the
  ratio and the task count as parameters (\<^verbatim>\<open>main\<close> fixes them to a 3 by 1024 by 1536
  image, 1.5 and 512). Task \<open>i\<close> stores its count in \<^verbatim>\<open>pixels_inside_local[i]\<close>, and
  \<^verbatim>\<open>std::accumulate\<close> adds the entries up from 0. The result is the total, the vector of
  local counts and the image. A negative \<open>task_size\<close> is no length for
  \<^verbatim>\<open>vector<int> pixels_inside_local(task_size, 0)\<close>: the constructor throws.
\<close>

definition fractal_stage ::
  "colorizer \<Rightarrow> Image \<Rightarrow> real \<Rightarrow> int \<Rightarrow> error + int \<times> int list \<times> Image" where
  "fractal_stage colorize im ratio task_size =
     (if task_size < 0 then Inl BadVectorLength
      else
        case for_loop 0 task_size
               (\<lambda>i (pixels_inside_local, im').
                  case mandelbrot colorize im' ratio i task_size of
                    Inl e \<Rightarrow> Inl e
                  | Inr (n, im'') \<Rightarrow> Inr (pixels_inside_local[nat i := n], im''))
               (replicate (nat task_size) 0, im) of
          Inl e \<Rightarrow> Inl e
        | Inr (pixels_inside_local, im') \<Rightarrow>
            Inr (foldl (+) 0 pixels_inside_local, pixels_inside_local, im'))"

text \<open>
  The flag that the kernel returns for the point \<open>c\<close>; it depends on neither the pixel
  buffer nor the colouring.
\<close>

definition kernel_flag :: "complex \<Rightarrow> bool" where
  "kernel_flag c \<longleftrightarrow> snd (mandelbrot_loop c 0 0) < max_iterations"

text \<open>
  The number of pixels of the slice of task \<open>task_num\<close>, all rows, for which the kernel
  returns the flag.
\<close>

definition flagged_in_slice :: "Image \<Rightarrow> real \<Rightarrow> int \<Rightarrow> int \<Rightarrow> int" where
  "flagged_in_slice im ratio task_num task_size =
     int (card {(i, j). i \<in> task_range (width im) task_num task_size \<and> 0 \<le> j \<and> j < height im \<and>
                        kernel_flag (pixel_point (width im) (height im) (ratio / 10) i j)})"

section \<open>The convolution stage\<close>

text \<open>
  Modelled from the spec: \<^verbatim>\<open>get_2d_kernel\<close> is declared in \<^verbatim>\<open>a2-helpers.hpp\<close>, which is not
  part of the sources. The spec (3, 4.5) says that it computes a matrix of real weights
  from a width and a spread. It is a parameter \<open>get_2d_kernel\<close> of the model, taking the
  two sizes and sigma to a \<^verbatim>\<open>vector<vector<double>>\<close>; nothing is assumed of the matrix it
  returns.
\<close>

type_synonym kernel_maker = "int \<Rightarrow> int \<Rightarrow> real \<Rightarrow> real list list"

text \<open>\<^verbatim>\<open>kernel[a][b]\<close>; an index outside either vector is an error.\<close>

definition kernel_at :: "real list list \<Rightarrow> int \<Rightarrow> int \<Rightarrow> error + real" where
  "kernel_at kern a b =
     (if 0 \<le> a \<and> a < int (length kern)
      then (let row = kern ! nat a
            in if 0 \<le> b \<and> b < int (length row) then Inr (row ! nat b)
               else Inl KernelIndexOutOfRange)
      else Inl KernelIndexOutOfRange)"

text \<open>The body of the loop over \<open>l\<close>: lines 134 to 145.\<close>

definition neighbor_step ::
  "real list list \<Rightarrow> Image \<Rightarrow> int \<Rightarrow> int \<Rightarrow> int \<Rightarrow> int \<Rightarrow> int \<Rightarrow> int \<Rightarrow> int \<Rightarrow> int \<Rightarrow> real \<Rightarrow> error + real" where
  "neighbor_step kern source w h displ ch i j k l val =
     (let cy = i + k; cx = j + l
      in if cx < 0 \<or> cx > w - 1 \<or> cy < 0 \<or> cy > h - 1 then Inr val
         else (let src_val = img_get source ch cy cx
               in case kernel_at kern (k + displ) (l + displ) of
                    Inl e \<Rightarrow> Inl e
                  | Inr weight \<Rightarrow> Inr (val + weight * real_of_int src_val)))"

text \<open>The loops over \<open>k\<close> and \<open>l\<close>, from \<^verbatim>\<open>val = 0.0\<close>: lines 128 to 147.\<close>

definition neighborhood_sum ::
  "real list list \<Rightarrow> Image \<Rightarrow> int \<Rightarrow> int \<Rightarrow> int \<Rightarrow> int \<Rightarrow> int \<Rightarrow> int \<Rightarrow> error + real" where
  "neighborhood_sum kern source w h displ ch i j =
     for_loop (- displ) (displ + 1)
       (\<lambda>k. for_loop (- displ) (displ + 1)
          (\<lambda>l. neighbor_step kern source w h displ ch i j k l))
       0"

text \<open>The cast \<^verbatim>\<open>(int)\<close> of a \<^verbatim>\<open>double\<close> truncates towards zero.\<close>

definition c_trunc :: "real \<Rightarrow> int" where
  "c_trunc x = (if 0 \<le> x then \<lfloor>x\<rfloor> else \<lceil>x\<rceil>)"

text \<open>\<^verbatim>\<open>(int)(val > 255 ? 255 : (val < 0 ? 0 : val))\<close>: line 148.\<close>

definition clamp_sample :: "real \<Rightarrow> int" where
  "clamp_sample val = c_trunc (if val > 255 then 255 else (if val < 0 then 0 else val))"

text \<open>
  The two images of the convolution stage. They are two objects: \<^verbatim>\<open>main\<close> passes
  \<^verbatim>\<open>image\<close> and \<^verbatim>\<open>filtered_image\<close>.
\<close>

record conv_bufs =
  src :: Image
  dst :: Image

text \<open>The body of the loop over \<open>i\<close>: lines 128 to 148.\<close>

definition convolve_pixel ::
  "real list list \<Rightarrow> int \<Rightarrow> int \<Rightarrow> int \<Rightarrow> int \<Rightarrow> int \<Rightarrow> int \<Rightarrow> conv_bufs \<Rightarrow> error + conv_bufs" where
  "convolve_pixel kern w h displ j ch i st =
     (case neighborhood_sum kern (src st) w h displ ch i j of
        Inl e \<Rightarrow> Inl e
      | Inr val \<Rightarrow> Inr (st\<lparr>dst := img_set (dst st) ch i j (clamp_sample val)\<rparr>))"

definition convolution_2d_helper ::
  "kernel_maker \<Rightarrow> conv_bufs \<Rightarrow> int \<Rightarrow> real \<Rightarrow> int \<Rightarrow> int \<Rightarrow> int \<Rightarrow> error + conv_bufs" where
  "convolution_2d_helper get_2d_kernel st kernel_width sigma nsteps task_num task_size =
     (let h = height (src st); w = width (src st); chans = channels (src st);
          kern = get_2d_kernel kernel_width kernel_width sigma
      in if task_size = 0 then Inl DivisionByZero
         else
           let displ = int (length kern div 2)
           in for_loop (task_begin w task_num task_size) (task_end w task_num task_size)
                (\<lambda>j. for_loop 0 chans
                   (\<lambda>ch. for_loop 0 h
                      (\<lambda>i. convolve_pixel kern w h displ j ch i)))
                st)"

text \<open>\<^verbatim>\<open>Image tmp = src; src = dst; dst = tmp;\<close>\<close>

definition swap_bufs :: "conv_bufs \<Rightarrow> conv_bufs" where
  "swap_bufs st = (let tmp = src st in st\<lparr>src := dst st, dst := tmp\<rparr>)"

text \<open>One pass: the dispatch of the \<open>task_size\<close> tasks, lines 163 to 167.\<close>

definition convolution_pass ::
  "kernel_maker \<Rightarrow> int \<Rightarrow> real \<Rightarrow> int \<Rightarrow> int \<Rightarrow> conv_bufs \<Rightarrow> error + conv_bufs" where
  "convolution_pass get_2d_kernel kernel_width sigma nsteps task_size st =
     for_loop 0 task_size
       (\<lambda>i st'. convolution_2d_helper get_2d_kernel st' kernel_width sigma nsteps i task_size)
       st"

definition convolution_2d ::
  "kernel_maker \<Rightarrow> Image \<Rightarrow> Image \<Rightarrow> int \<Rightarrow> real \<Rightarrow> int \<Rightarrow> error + conv_bufs" where
  "convolution_2d get_2d_kernel source dest kernel_width sigma nsteps =
     (let task_size = 256
      in for_loop 0 nsteps
           (\<lambda>step st.
              case convolution_pass get_2d_kernel kernel_width sigma nsteps task_size st of
                Inl e \<Rightarrow> Inl e
              | Inr st' \<Rightarrow> Inr (if step < nsteps - 1 then swap_bufs st' else st'))
           \<lparr>src = source, dst = dest\<rparr>)"

text \<open>
  The words of the spec for the multi-pass stage: the single-pass function \<open>pass\<close> applied
  \<open>k\<close> times, the buffers alternated between passes. One more pass is a pass whose source
  is the destination of the passes before it, and whose destination is their source.
\<close>

fun alternating_passes ::
  "(conv_bufs \<Rightarrow> error + conv_bufs) \<Rightarrow> nat \<Rightarrow> conv_bufs \<Rightarrow> error + conv_bufs" where
  "alternating_passes pass 0 st = Inr st"
| "alternating_passes pass (Suc 0) st = pass st"
| "alternating_passes pass (Suc (Suc k)) st =
     (case alternating_passes pass (Suc k) st of
        Inl e \<Rightarrow> Inl e
      | Inr st' \<Rightarrow> pass \<lparr>src = dst st', dst = src st'\<rparr>)"

section \<open>Notions for the statements\<close>

text \<open>Two images have the same dimensions.\<close>

definition same_dims :: "Image \<Rightarrow> Image \<Rightarrow> bool" where
  "same_dims a b \<longleftrightarrow> channels a = channels b \<and> height a = height b \<and> width a = width b"

text \<open>A 3-channel image of one row and two columns, all samples 0, for the examples.\<close>

definition tiny_image :: Image where
  "tiny_image = \<lparr>channels = 3, height = 1, width = 2, data = (\<lambda>x. 0)\<rparr>"

text \<open>
  A kernel matrix as the spec describes it: square, of odd side length. The helper
  \<^verbatim>\<open>convolution_2d_helper\<close> reads \<^verbatim>\<open>kernel[k + displ][l + displ]\<close> within such a matrix only.
\<close>

definition square_odd :: "real list list \<Rightarrow> bool" where
  "square_odd kern \<longleftrightarrow> odd (length kern) \<and> (\<forall>row \<in> set kern. length row = length kern)"

text \<open>The source image, read as 0 outside \<open>[0, w) \<times> [0, h)\<close>: zero padding.\<close>

definition padded :: "Image \<Rightarrow> int \<Rightarrow> int \<Rightarrow> int \<Rightarrow> int \<Rightarrow> int \<Rightarrow> int" where
  "padded source w h ch cy cx =
     (if 0 \<le> cx \<and> cx < w \<and> 0 \<le> cy \<and> cy < h then img_get source ch cy cx else 0)"

text \<open>
  The weighted sum over the whole window of the zero-padded source, for the target pixel
  in row \<open>i\<close> and column \<open>j\<close> of channel \<open>ch\<close>.
\<close>

definition padded_sum :: "real list list \<Rightarrow> Image \<Rightarrow> int \<Rightarrow> int \<Rightarrow> int \<Rightarrow> int \<Rightarrow> int \<Rightarrow> int \<Rightarrow> real" where
  "padded_sum kern source w h displ ch i j =
     (\<Sum>k\<in>{- displ .. displ}. \<Sum>l\<in>{- displ .. displ}.
        kern ! nat (k + displ) ! nat (l + displ) * real_of_int (padded source w h ch (i + k) (j + l)))"

text \<open>
  The sample \<open>v\<close> is what line 148 stores for the cell \<open>(ch, i, j)\<close>: the neighborhood sum
  of the source at that cell, clamped and truncated.
\<close>

definition stored :: "real list list \<Rightarrow> int \<Rightarrow> int \<Rightarrow> int \<Rightarrow> Image \<Rightarrow> int \<times> int \<times> int \<Rightarrow> int \<Rightarrow> bool" where
  "stored kern w h displ source cell v \<longleftrightarrow>
     (case cell of (ch, i, j) \<Rightarrow>
        \<exists>val. neighborhood_sum kern source w h displ ch i j = Inr val \<and> v = clamp_sample val)"

text \<open>
  The step from \<open>t\<close> to \<open>t'\<close> leaves the source image and the dimensions of the destination
  as they are, changes no sample of the destination outside the cells \<open>S\<close>, and leaves in
  every cell of \<open>S\<close> a sample that \<open>W\<close> relates to the source.
\<close>

definition writes ::
  "(Image \<Rightarrow> int \<times> int \<times> int \<Rightarrow> int \<Rightarrow> bool) \<Rightarrow> (int \<times> int \<times> int) set \<Rightarrow> conv_bufs \<Rightarrow> conv_bufs \<Rightarrow> bool" where
  "writes W S t t' \<longleftrightarrow>
     src t' = src t \<and> same_dims (dst t') (dst t) \<and>
     (\<forall>cell. cell \<notin> S \<longrightarrow> data (dst t') cell = data (dst t) cell) \<and>
     (\<forall>cell\<in>S. W (src t) cell (data (dst t') cell))"

text \<open>The cells of one task: the columns of its range, all channels and all rows.\<close>

definition task_region :: "Image \<Rightarrow> int \<Rightarrow> int \<Rightarrow> (int \<times> int \<times> int) set" where
  "task_region source task_num task_size =
     {(ch, i, j). j \<in> task_range (width source) task_num task_size \<and>
                  0 \<le> ch \<and> ch < channels source \<and> 0 \<le> i \<and> i < height source}"

text \<open>
  Example inputs: the kernel of the spec's end-to-end scenario (all weights 1/9), a 4 by 4
  single-channel image of all 255, one of all 0, and an image without pixels.
\<close>

definition ninth_kernel :: kernel_maker where
  "ninth_kernel kernel_width kernel_height sigma =
     replicate (nat kernel_width) (replicate (nat kernel_height) (1 / 9))"

definition white_image :: Image where
  "white_image = \<lparr>channels = 1, height = 4, width = 4, data = (\<lambda>x. 255)\<rparr>"

definition black_image :: Image where
  "black_image = \<lparr>channels = 1, height = 4, width = 4, data = (\<lambda>x. 0)\<rparr>"


section \<open>Properties of the escape kernel\<close>

lemma orbit_Suc: "orbit c (Suc n) = orbit c n * orbit c n + c"
  by (simp add: orbit_def)

lemma orbit_0: "orbit c 0 = 0"
  by (simp add: orbit_def)

lemma mandelbrot_loop_zero:
  "0 \<le> iteration \<Longrightarrow> iteration \<le> max_iterations \<Longrightarrow>
   mandelbrot_loop 0 0 iteration = (0, max_iterations)"
proof (induction "nat (max_iterations - iteration)" arbitrary: iteration)
  case 0
  then have "iteration = max_iterations" by simp
  then show ?case by (simp add: mandelbrot_loop.simps)
next
  case (Suc k)
  then have lt: "iteration < max_iterations" by linarith
  have "k = nat (max_iterations - (iteration + 1))" using Suc.hyps(2) by linarith
  then have "mandelbrot_loop 0 0 (iteration + 1) = (0, max_iterations)"
    using Suc.hyps(1) Suc.prems lt by simp
  then show ?case using lt by (subst mandelbrot_loop.simps) simp
qed

text \<open>
  The loop from \<open>z = orbit c n\<close> and \<open>iteration = n\<close>, all earlier points within radius 4,
  ends at a count where it stops at radius 4, with \<open>z\<close> the orbit point of that count.
\<close>

lemma mandelbrot_loop_stops:
  "int n \<le> max_iterations \<Longrightarrow> \<forall>m < n. cmod (orbit c m) \<le> 4 \<Longrightarrow>
   \<exists>n'. mandelbrot_loop c (orbit c n) (int n) = (orbit c n', int n') \<and> stops_at 4 c n'"
proof (induction "nat (max_iterations - int n)" arbitrary: n)
  case 0
  then have eq: "int n = max_iterations" by simp
  then have "mandelbrot_loop c (orbit c n) (int n) = (orbit c n, int n)"
    by (subst mandelbrot_loop.simps) simp
  moreover have "stops_at 4 c n"
    using eq "0.prems" by (simp add: stops_at_def)
  ultimately show ?case by blast
next
  case (Suc k)
  then have lt: "int n < max_iterations" by linarith
  show ?case
  proof (cases "cmod (orbit c n) \<le> 4")
    case True
    have k: "k = nat (max_iterations - int (Suc n))" using Suc.hyps(2) by linarith
    have le: "int (Suc n) \<le> max_iterations" using lt by simp
    have within: "\<forall>m < Suc n. cmod (orbit c m) \<le> 4"
      using Suc.prems(2) True by (auto simp: less_Suc_eq)
    obtain n' where n': "mandelbrot_loop c (orbit c (Suc n)) (int (Suc n)) = (orbit c n', int n')"
      "stops_at 4 c n'"
      using Suc.hyps(1) [OF k le within] by blast
    have "mandelbrot_loop c (orbit c n) (int n) = mandelbrot_loop c (orbit c (Suc n)) (int (Suc n))"
      using True lt by (subst mandelbrot_loop.simps) (simp add: orbit_Suc add.commute)
    with n' show ?thesis by auto
  next
    case False
    then have "mandelbrot_loop c (orbit c n) (int n) = (orbit c n, int n)"
      by (subst mandelbrot_loop.simps) simp
    moreover have "stops_at 4 c n"
      using False lt Suc.prems(2) by (simp add: stops_at_def)
    ultimately show ?thesis by blast
  qed
qed

text \<open>
  Claim C1, as amended. For every complex input \<open>c\<close> the kernel's loop iterates
  \<open>z \<leftarrow> z\<^sup>2 + c\<close> from \<open>z = 0\<close> and stops exactly when \<open>|z| > 4\<close> or when the budget
  of 2048 iterations is exhausted: it returns the orbit point and the count \<open>n\<close> of the
  first \<open>n\<close> at which \<open>|z| > 4\<close> or \<open>n = 2048\<close>. The radius of the source is 4, not 2.
\<close>

theorem mandelbrot_loop_stops_at_radius_4:
  "\<exists>n. mandelbrot_loop c 0 0 = (orbit c n, int n) \<and> stops_at 4 c n"
  using mandelbrot_loop_stops [of 0 c] by (simp add: orbit_0 max_iterations_def)

theorem mandelbrot_loop_stops_at_radius_4_witness:
  "mandelbrot_loop 3 0 0 = (orbit 3 2, 2) \<and> stops_at 4 3 2"
proof -
  obtain n where n: "mandelbrot_loop 3 0 0 = (orbit 3 n, int n)" "stops_at 4 3 n"
    using mandelbrot_loop_stops_at_radius_4 [of 3] by blast
  have "mandelbrot_loop 3 0 0 = (12, 2)"
    by (simp add: mandelbrot_loop.simps max_iterations_def)
  with n(1) have "n = 2" by simp
  with n show ?thesis by simp
qed

text \<open>
  Claim C1, as stated, fails at \<open>c = 3\<close>: after one iteration \<open>z = 3\<close>, so \<open>|z| > 2\<close>,
  and the loop goes on to \<open>z = 12\<close> and stops with the count 2.
\<close>

theorem mandelbrot_loop_radius_2_counterexample:
  "mandelbrot_loop 3 0 0 = (12, 2) \<and> \<not> stops_at 2 3 (nat (snd (mandelbrot_loop 3 0 0)))"
proof -
  have loop: "mandelbrot_loop 3 0 0 = (12, 2)"
    by (simp add: mandelbrot_loop.simps max_iterations_def)
  have "\<not> stops_at 2 3 2"
  proof
    assume "stops_at 2 3 2"
    then have "cmod (orbit 3 1) \<le> 2" unfolding stops_at_def by simp
    then show False by (simp add: orbit_def)
  qed
  with loop show ?thesis by simp
qed

text \<open>
  Claim C3, on the code. For \<open>c = 0\<close> the loop keeps \<open>z = 0\<close> and exhausts the budget
  (it returns \<open>z = 0\<close> and the count 2048), and the kernel returns
  \<^verbatim>\<open>iteration < max_iterations\<close>, which is false: the flag that the caller counts as
  "inside" is false for the point 0 of the set.
\<close>

theorem mandelbrot_kernel_origin_flag:
  "mandelbrot_loop 0 0 0 = (0, max_iterations) \<and>
   stops_at 2 0 (nat max_iterations) \<and> cmod (orbit 0 (nat max_iterations)) \<le> 2 \<and>
   fst (mandelbrot_kernel colorize 0 p) = False"
proof -
  have loop: "mandelbrot_loop 0 0 0 = (0, max_iterations)"
    using mandelbrot_loop_zero [of 0] by (simp add: max_iterations_def)
  have orb: "orbit 0 n = 0" for n
    by (induction n) (simp_all add: orbit_0 orbit_Suc)
  have "stops_at 2 0 (nat max_iterations)"
    by (simp add: stops_at_def orb max_iterations_def)
  with loop orb show ?thesis
    by (simp add: mandelbrot_kernel_def)
qed

theorem mandelbrot_kernel_origin_flag_witness:
  "mandelbrot_loop 0 0 0 = (0, 2048) \<and>
   fst (mandelbrot_kernel (\<lambda>p q iteration. p) 0 (0, 0, 0)) = False"
  using mandelbrot_kernel_origin_flag [of "\<lambda>p q iteration. p" "(0, 0, 0)"]
  by (simp add: max_iterations_def)

section \<open>Properties of counted loops\<close>

lemma for_loop_empty: "b \<le> a \<Longrightarrow> for_loop a b body s = Inr s"
  by (subst for_loop.simps) simp

lemma for_loop_step:
  "a < b \<Longrightarrow> for_loop a b body s =
     (case body a s of Inl e \<Rightarrow> Inl e | Inr s' \<Rightarrow> for_loop (a + 1) b body s')"
  by (subst for_loop.simps) simp

lemma for_loop_total:
  assumes "I a s"
    and "\<And>i t. a \<le> i \<Longrightarrow> i < b \<Longrightarrow> I i t \<Longrightarrow> \<exists>t'. body i t = Inr t' \<and> I (i + 1) t'"
  shows "\<exists>s'. for_loop a b body s = Inr s' \<and> I (max a b) s'"
  using assms
proof (induction "nat (b - a)" arbitrary: a s)
  case 0
  then have "b \<le> a" by simp
  then show ?case using "0.prems"(1) by (simp add: for_loop_empty max_def)
next
  case (Suc n)
  then have lt: "a < b" by linarith
  obtain t where t: "body a s = Inr t" "I (a + 1) t"
    using Suc.prems(2) [of a s] Suc.prems(1) lt by auto
  have n: "n = nat (b - (a + 1))" using Suc.hyps(2) by linarith
  have "\<exists>s'. for_loop (a + 1) b body t = Inr s' \<and> I (max (a + 1) b) s'"
  proof (rule Suc.hyps(1) [OF n t(2)])
    fix i u assume "a + 1 \<le> i" "i < b" "I i u"
    then show "\<exists>t'. body i u = Inr t' \<and> I (i + 1) t'"
      using Suc.prems(2) [of i u] by simp
  qed
  then show ?case using lt t(1) by (simp add: for_loop_step max_def)
qed

lemma for_loop_partial:
  assumes "for_loop a b body s = Inr s'" and "I a s"
    and "\<And>i t t'. a \<le> i \<Longrightarrow> i < b \<Longrightarrow> I i t \<Longrightarrow> body i t = Inr t' \<Longrightarrow> I (i + 1) t'"
  shows "I (max a b) s'"
  using assms
proof (induction "nat (b - a)" arbitrary: a s)
  case 0
  then have "b \<le> a" by simp
  then show ?case using "0.prems" by (simp add: for_loop_empty max_def)
next
  case (Suc n)
  then have lt: "a < b" by linarith
  from Suc.prems(1) lt obtain t where t: "body a s = Inr t" "for_loop (a + 1) b body t = Inr s'"
    by (auto simp: for_loop_step split: sum.splits)
  have n: "n = nat (b - (a + 1))" using Suc.hyps(2) by linarith
  have "I (a + 1) t" using Suc.prems(3) [of a s t] Suc.prems(2) lt t(1) by simp
  then have "I (max (a + 1) b) s'"
  proof (rule Suc.hyps(1) [OF n t(2)])
    fix i u u' assume "a + 1 \<le> i" "i < b" "I i u" "body i u = Inr u'"
    then show "I (i + 1) u'" using Suc.prems(3) [of i u u'] by simp
  qed
  then show ?case using lt by (simp add: max_def)
qed

lemma for_loop_cong:
  assumes "\<And>i t. a \<le> i \<Longrightarrow> i < b \<Longrightarrow> body i t = body' i t"
  shows "for_loop a b body s = for_loop a b body' s"
  using assms
proof (induction "nat (b - a)" arbitrary: a s)
  case 0
  then show ?case by (simp add: for_loop_empty)
next
  case (Suc n)
  then have lt: "a < b" by linarith
  have n: "n = nat (b - (a + 1))" using Suc.hyps(2) by linarith
  have "for_loop (a + 1) b body t = for_loop (a + 1) b body' t" for t
    by (rule Suc.hyps(1) [OF n]) (simp add: Suc.prems)
  then show ?case using lt Suc.prems [of a s] by (simp add: for_loop_step split: sum.splits)
qed

lemma for_loop_snoc:
  "a \<le> b \<Longrightarrow> for_loop a (b + 1) body s =
     (case for_loop a b body s of Inl e \<Rightarrow> Inl e | Inr s' \<Rightarrow> body b s')"
proof (induction "nat (b - a)" arbitrary: a s)
  case 0
  then have "a = b" by simp
  then show ?case by (simp add: for_loop_step for_loop_empty split: sum.splits)
next
  case (Suc n)
  then have lt: "a < b" by linarith
  have n: "n = nat (b - (a + 1))" using Suc.hyps(2) by linarith
  have "for_loop (a + 1) (b + 1) body t =
     (case for_loop (a + 1) b body t of Inl e \<Rightarrow> Inl e | Inr s' \<Rightarrow> body b s')" for t
    by (rule Suc.hyps(1) [OF n]) (use lt in simp)
  then show ?case using lt by (simp add: for_loop_step split: sum.splits)
qed

section \<open>Properties of the tiling\<close>

lemma sdiv_nonneg: "0 \<le> a \<Longrightarrow> 0 < b \<Longrightarrow> a sdiv b = a div (b::int)"
  by (cases "a = 0") (simp_all add: signed_divide_int_def)

lemma task_range_eq:
  "0 \<le> W \<Longrightarrow> 0 < T \<Longrightarrow> task_range W t T = {t * (W div T) ..< (t + 1) * (W div T)}"
  by (auto simp: task_range_def task_begin_def task_end_def sdiv_nonneg)

lemma interval_disjoint:
  fixes q :: int
  assumes "0 \<le> q" "t \<noteq> t'"
  shows "{t * q ..< (t + 1) * q} \<inter> {t' * q ..< (t' + 1) * q} = {}"
proof -
  have aux: "False" if "a < b" "a * q \<le> i" "i < (a + 1) * q" "b * q \<le> i" for a b i :: int
  proof -
    from that(1) have "a + 1 \<le> b" by simp
    then have "(a + 1) * q \<le> b * q" using assms(1) by (rule mult_right_mono)
    with that show False by linarith
  qed
  show ?thesis
  proof (rule equals0I)
    fix i assume "i \<in> {t * q ..< (t + 1) * q} \<inter> {t' * q ..< (t' + 1) * q}"
    then have i: "t * q \<le> i" "i < (t + 1) * q" "t' * q \<le> i" "i < (t' + 1) * q"
      by simp_all
    from assms(2) consider "t < t'" | "t' < t" by linarith
    then show False using aux i by cases blast+
  qed
qed

lemma interval_union:
  fixes q :: int
  assumes "0 \<le> q" "0 \<le> T"
  shows "(\<Union>t\<in>{0..<T}. {t * q ..< (t + 1) * q}) = {0 ..< T * q}"
proof (rule set_eqI, rule iffI)
  fix i assume "i \<in> (\<Union>t\<in>{0..<T}. {t * q ..< (t + 1) * q})"
  then obtain t where t: "0 \<le> t" "t < T" "t * q \<le> i" "i < (t + 1) * q" by auto
  have "0 \<le> t * q" using t(1) assms(1) by simp
  moreover have "(t + 1) * q \<le> T * q" using t(2) assms(1) by (intro mult_right_mono) auto
  ultimately show "i \<in> {0 ..< T * q}" using t by auto
next
  fix i assume "i \<in> {0 ..< T * q}"
  then have i: "0 \<le> i" "i < T * q" by auto
  then have q: "0 < q" using assms by (cases "q = 0") auto
  let ?t = "i div q"
  have le: "?t * q \<le> i" using q by (metis div_mult_mod_eq le_add_same_cancel1 pos_mod_sign)
  have "0 \<le> ?t" using i q by (simp add: pos_imp_zdiv_nonneg_iff)
  moreover have "?t < T"
  proof -
    have "?t * q < T * q" using le i(2) by linarith
    then show ?thesis using q by (simp add: mult_less_cancel_right)
  qed
  moreover note le
  moreover have "i < (?t + 1) * q"
  proof -
    have e: "(?t + 1) * q = ?t * q + q" by (simp add: algebra_simps)
    have "i = ?t * q + i mod q" by simp
    moreover have "i mod q < q" using q by simp
    ultimately show ?thesis using e by linarith
  qed
  ultimately show "i \<in> (\<Union>t\<in>{0..<T}. {t * q ..< (t + 1) * q})" by auto
qed

text \<open>
  Claim C6. For every extent \<open>W \<ge> 0\<close> and task count \<open>T > 0\<close>, the loop of task \<open>t\<close> visits
  exactly the indices from \<open>t \<cdot> (W div T)\<close> up to, and without, \<open>(t + 1) \<cdot> (W div T)\<close>; the
  ranges of two different tasks are disjoint; the tasks \<open>0, \<dots>, T - 1\<close> together cover
  exactly the indices below \<open>W - W mod T\<close>, so that the trailing \<open>W mod T\<close> indices of
  \<open>[0, W)\<close> are covered by no task.
\<close>

theorem task_ranges_tile:
  assumes "0 \<le> W" "0 < T"
  shows "task_range W t T = {t * (W div T) ..< (t + 1) * (W div T)} \<and>
         (t \<noteq> t' \<longrightarrow> task_range W t T \<inter> task_range W t' T = {}) \<and>
         (\<Union>t\<in>{0..<T}. task_range W t T) = {0 ..< W - W mod T} \<and>
         {0 ..< W} - (\<Union>t\<in>{0..<T}. task_range W t T) = {W - W mod T ..< W} \<and>
         card {W - W mod T ..< W} = nat (W mod T)"
proof -
  let ?q = "W div T"
  have q: "0 \<le> ?q" using assms by (simp add: pos_imp_zdiv_nonneg_iff)
  have eq: "task_range W u T = {u * ?q ..< (u + 1) * ?q}" for u
    using assms by (rule task_range_eq)
  have Tq: "T * ?q = W - W mod T" by (simp add: algebra_simps minus_mod_eq_mult_div)
  have un: "(\<Union>t\<in>{0..<T}. task_range W t T) = {0 ..< W - W mod T}"
    using interval_union [OF q, of T] assms(2) by (simp add: eq Tq)
  have m: "0 \<le> W mod T" "W mod T \<le> W" using assms by (simp_all add: zmod_le_nonneg_dividend)
  have "{0 ..< W} - {0 ..< W - W mod T} = {W - W mod T ..< W}" using m by auto
  with un eq interval_disjoint [OF q] show ?thesis by simp
qed

theorem task_ranges_tile_witness:
  "task_range 10 1 4 = {2 ..< 4} \<and> task_range 10 1 4 \<inter> task_range 10 2 4 = {} \<and>
   (\<Union>t\<in>{0..<4}. task_range 10 t 4) = {0 ..< 8} \<and>
   {0 ..< 10} - (\<Union>t\<in>{0..<4}. task_range 10 t 4) = {8 ..< 10::int} \<and>
   card {8 ..< 10::int} = 2"
proof -
  have h: "(0::int) \<le> 10" "(0::int) < 4" by simp_all
  note t = task_ranges_tile [OF h, of 1 2]
  from t have a: "task_range 10 1 4 = {2 ..< 4}" by simp
  have b: "task_range 10 1 4 \<inter> task_range 10 2 4 = {}"
    using t [THEN conjunct2, THEN conjunct1] by simp
  from t have c: "(\<Union>t\<in>{0..<4}. task_range 10 t 4) = {0 ..< 8}" by simp
  from t have d: "{0 ..< 10} - (\<Union>t\<in>{0..<4}. task_range 10 t 4) = {8 ..< 10::int}" by simp
  from a b c d show ?thesis by simp
qed

section \<open>Properties of the fractal stage\<close>

lemma same_dims_refl: "same_dims a a"
  by (simp add: same_dims_def)

lemma same_dims_img_set: "same_dims (img_set a ch r c v) b = same_dims a b"
  by (simp add: same_dims_def img_set_def)

lemma kernel_fst: "fst (mandelbrot_kernel colorize c p) = kernel_flag c"
  by (simp add: mandelbrot_kernel_def kernel_flag_def Let_def split: prod.splits)

lemma pixel_at_ok: "0 \<le> ch \<Longrightarrow> ch < 3 \<Longrightarrow> \<exists>v. pixel_at p ch = Inr v"
  by (cases p) (auto simp: pixel_at_def)

lemma write_pixel_ok:
  assumes "chans \<le> 3"
  shows "\<exists>im'. write_pixel p chans j i im = Inr im' \<and> same_dims im' im"
proof -
  have "\<exists>s'. for_loop 0 chans
       (\<lambda>ch im'. case pixel_at p ch of Inl e \<Rightarrow> Inl e | Inr v \<Rightarrow> Inr (img_set im' ch j i v)) im = Inr s'
       \<and> (\<lambda>ch im'. same_dims im' im) (max 0 chans) s'"
  proof (rule for_loop_total)
    show "same_dims im im" by (rule same_dims_refl)
  next
    fix ch t assume ch: "0 \<le> ch" "ch < chans" and t: "same_dims t im"
    then obtain v where "pixel_at p ch = Inr v" using pixel_at_ok [of ch p] assms by auto
    then show "\<exists>t'. (case pixel_at p ch of Inl e \<Rightarrow> Inl e | Inr v \<Rightarrow> Inr (img_set t ch j i v)) = Inr t'
        \<and> same_dims t' im"
      using t by (simp add: same_dims_img_set)
  qed
  then show ?thesis by (simp add: write_pixel_def)
qed

lemma write_pixel_fails:
  "3 < chans \<Longrightarrow> write_pixel p chans j i im = Inl PixelIndexOutOfRange"
  by (cases p) (simp add: write_pixel_def for_loop_step pixel_at_def)

lemma sum_int_snoc:
  fixes f :: "int \<Rightarrow> int"
  shows "a \<le> b \<Longrightarrow> (\<Sum>i\<in>{a..<b + 1}. f i) = (\<Sum>i\<in>{a..<b}. f i) + f b"
proof -
  assume "a \<le> b"
  then have "{a..<b + 1} = insert b {a..<b}" by auto
  then show ?thesis by simp
qed

lemma mandelbrot_pixel_ok:
  assumes "chans \<le> 3"
  shows "\<exists>st'. mandelbrot_pixel colorize w h chans ratio i j st = Inr st' \<and>
           pixels_inside st' = pixels_inside st + of_bool (kernel_flag (pixel_point w h ratio i j)) \<and>
           same_dims (img st') (img st)"
proof -
  obtain inside p where k: "mandelbrot_kernel colorize (pixel_point w h ratio i j) (pixel st) = (inside, p)"
    by (cases "mandelbrot_kernel colorize (pixel_point w h ratio i j) (pixel st)")
  then have ins: "inside = kernel_flag (pixel_point w h ratio i j)"
    using kernel_fst [of colorize "pixel_point w h ratio i j" "pixel st"] by simp
  obtain im' where "write_pixel p chans j i (img st) = Inr im'" "same_dims im' (img st)"
    using write_pixel_ok [OF assms] by blast
  then show ?thesis using k ins by (simp add: mandelbrot_pixel_def)
qed

lemma mandelbrot_column:
  assumes "chans \<le> 3"
  shows "\<exists>st'. for_loop 0 h (\<lambda>j. mandelbrot_pixel colorize w h chans ratio i j) st = Inr st' \<and>
           pixels_inside st' = pixels_inside st +
             (\<Sum>j\<in>{0..<h}. of_bool (kernel_flag (pixel_point w h ratio i j))) \<and>
           same_dims (img st') (img st)"
proof -
  let ?I = "\<lambda>j st'. pixels_inside st' = pixels_inside st +
             (\<Sum>j\<in>{0..<j}. of_bool (kernel_flag (pixel_point w h ratio i j))) \<and>
           same_dims (img st') (img st)"
  have "\<exists>s'. for_loop 0 h (\<lambda>j. mandelbrot_pixel colorize w h chans ratio i j) st = Inr s' \<and>
     ?I (max 0 h) s'"
  proof (rule for_loop_total)
    show "?I 0 st" by (simp add: same_dims_refl del: sum_of_bool_eq)
  next
    fix j and t :: fractal_state assume j: "0 \<le> j" "j < h" and t: "?I j t"
    obtain t' where t': "mandelbrot_pixel colorize w h chans ratio i j t = Inr t'"
      "pixels_inside t' = pixels_inside t + of_bool (kernel_flag (pixel_point w h ratio i j))"
      "same_dims (img t') (img t)"
      using mandelbrot_pixel_ok [OF assms] by blast
    have "?I (j + 1) t'"
      using t t' j by (simp add: sum_int_snoc same_dims_def del: sum_of_bool_eq)
    with t'(1) show "\<exists>t'. mandelbrot_pixel colorize w h chans ratio i j t = Inr t' \<and> ?I (j + 1) t'"
      by blast
  qed
  moreover have "{0..<max 0 h} = {0..<h}" by auto
  ultimately show ?thesis by (simp del: sum_of_bool_eq)
qed

lemma mandelbrot_slice:
  assumes "chans \<le> 3"
  shows "\<exists>st'. for_loop a b (\<lambda>i. for_loop 0 h (\<lambda>j. mandelbrot_pixel colorize w h chans ratio i j)) st = Inr st' \<and>
           pixels_inside st' = pixels_inside st +
             (\<Sum>i\<in>{a..<b}. \<Sum>j\<in>{0..<h}. of_bool (kernel_flag (pixel_point w h ratio i j))) \<and>
           same_dims (img st') (img st)"
proof -
  let ?F = "\<lambda>i. \<Sum>j\<in>{0..<h}. of_bool (kernel_flag (pixel_point w h ratio i j))"
  let ?I = "\<lambda>i st'. pixels_inside st' = pixels_inside st + (\<Sum>i\<in>{a..<i}. ?F i) \<and>
           same_dims (img st') (img st)"
  have "\<exists>s'. for_loop a b (\<lambda>i. for_loop 0 h (\<lambda>j. mandelbrot_pixel colorize w h chans ratio i j)) st = Inr s' \<and>
     ?I (max a b) s'"
  proof (rule for_loop_total)
    show "?I a st" by (simp add: same_dims_refl del: sum_of_bool_eq)
  next
    fix i and t :: fractal_state assume i: "a \<le> i" "i < b" and t: "?I i t"
    obtain t' where t': "for_loop 0 h (\<lambda>j. mandelbrot_pixel colorize w h chans ratio i j) t = Inr t'"
      "pixels_inside t' = pixels_inside t + ?F i"
      "same_dims (img t') (img t)"
      using mandelbrot_column [OF assms] by blast
    have "?I (i + 1) t'"
      using t t' i by (simp add: sum_int_snoc same_dims_def del: sum_of_bool_eq)
    with t'(1) show "\<exists>t'. for_loop 0 h (\<lambda>j. mandelbrot_pixel colorize w h chans ratio i j) t = Inr t' \<and> ?I (i + 1) t'"
      by blast
  qed
  moreover have "{a..<max a b} = {a..<b}" by auto
  ultimately show ?thesis by (simp del: sum_of_bool_eq)
qed

lemma card_flagged:
  fixes a b h :: int
  shows "int (card {(i, j). i \<in> {a..<b} \<and> 0 \<le> j \<and> j < h \<and> P i j}) =
         (\<Sum>i\<in>{a..<b}. \<Sum>j\<in>{0..<h}. of_bool (P i j))"
proof -
  have "{(i, j). i \<in> {a..<b} \<and> 0 \<le> j \<and> j < h \<and> P i j} =
        ({a..<b} \<times> {0..<h}) \<inter> {x. P (fst x) (snd x)}" by auto
  moreover have "int (card (({a..<b} \<times> {0..<h}) \<inter> {x. P (fst x) (snd x)})) =
        (\<Sum>x\<in>{a..<b} \<times> {0..<h}. of_bool (P (fst x) (snd x)))"
    by (subst sum_of_bool_eq) simp_all
  moreover have "(\<Sum>x\<in>{a..<b} \<times> {0..<h}. of_bool (P (fst x) (snd x))) =
        (\<Sum>i\<in>{a..<b}. \<Sum>j\<in>{0..<h}. of_bool (P i j) :: int)"
    by (simp add: sum.cartesian_product split_def del: sum_of_bool_eq)
  ultimately show ?thesis by (simp del: sum_of_bool_eq)
qed

lemma task_range_interval:
  "task_range w t T = {task_begin w t T ..< task_end w t T}"
  by (auto simp: task_range_def)

lemma flagged_in_slice_sum:
  "flagged_in_slice im ratio t T =
     (\<Sum>i\<in>{task_begin (width im) t T ..< task_end (width im) t T}. \<Sum>j\<in>{0..<height im}.
        of_bool (kernel_flag (pixel_point (width im) (height im) (ratio / 10) i j)))"
  unfolding flagged_in_slice_def task_range_interval by (rule card_flagged)

lemma flagged_in_slice_dims:
  "same_dims a b \<Longrightarrow> flagged_in_slice a ratio t T = flagged_in_slice b ratio t T"
  by (simp add: flagged_in_slice_def same_dims_def)

lemma mandelbrot_ok:
  assumes "task_size \<noteq> 0" "channels im \<le> 3"
  shows "\<exists>im'. mandelbrot colorize im ratio task_num task_size =
           Inr (flagged_in_slice im ratio task_num task_size, im') \<and> same_dims im' im"
proof -
  let ?st = "\<lparr>pixels_inside = 0, pixel = (0, 0, 0), img = im\<rparr>"
  obtain st' where st': "for_loop (task_begin (width im) task_num task_size) (task_end (width im) task_num task_size)
      (\<lambda>i. for_loop 0 (height im) (\<lambda>j. mandelbrot_pixel colorize (width im) (height im) (channels im) (ratio / 10) i j)) ?st = Inr st'"
    "pixels_inside st' = pixels_inside ?st + flagged_in_slice im ratio task_num task_size"
    "same_dims (img st') (img ?st)"
    using mandelbrot_slice [OF assms(2), where st = ?st and w = "width im" and h = "height im"
        and ratio = "ratio / 10" and colorize = colorize
        and a = "task_begin (width im) task_num task_size"
        and b = "task_end (width im) task_num task_size"]
    unfolding flagged_in_slice_sum by auto
  then show ?thesis using assms(1) by (simp add: mandelbrot_def Let_def)
qed

lemma foldl_plus: "foldl (+) a xs = a + sum_list (xs :: int list)"
  by (induction xs arbitrary: a) (simp_all add: add.assoc)

lemma fractal_stage_ok:
  assumes "0 < task_size" "channels im \<le> 3"
  shows "\<exists>locals im'. fractal_stage colorize im ratio task_size = Inr (sum_list locals, locals, im') \<and>
           length locals = nat task_size \<and>
           (\<forall>t. 0 \<le> t \<and> t < task_size \<longrightarrow> locals ! nat t = flagged_in_slice im ratio t task_size) \<and>
           same_dims im' im"
proof -
  let ?body = "\<lambda>i (pixels_inside_local, im').
                  case mandelbrot colorize im' ratio i task_size of
                    Inl e \<Rightarrow> Inl e
                  | Inr (n, im'') \<Rightarrow> Inr (pixels_inside_local[nat i := n], im'')"
  let ?I = "\<lambda>i (locals, im'). length locals = nat task_size \<and> same_dims im' im \<and>
              (\<forall>t. 0 \<le> t \<and> t < i \<longrightarrow> locals ! nat t = flagged_in_slice im ratio t task_size)"
  have "\<exists>s'. for_loop 0 task_size ?body (replicate (nat task_size) 0, im) = Inr s' \<and> ?I (max 0 task_size) s'"
  proof (rule for_loop_total)
    show "?I 0 (replicate (nat task_size) 0, im)" by (simp add: same_dims_refl)
  next
    fix i s assume i: "0 \<le> i" "i < task_size" and s: "?I i s"
    obtain locals im' where [simp]: "s = (locals, im')" by (cases s)
    from s have len: "length locals = nat task_size" and sd: "same_dims im' im"
      and old: "\<forall>t. 0 \<le> t \<and> t < i \<longrightarrow> locals ! nat t = flagged_in_slice im ratio t task_size"
      by simp_all
    have ch: "channels im' \<le> 3" using sd assms(2) by (simp add: same_dims_def)
    have ne: "task_size \<noteq> 0" using assms(1) by simp
    obtain im'' where m: "mandelbrot colorize im' ratio i task_size =
        Inr (flagged_in_slice im' ratio i task_size, im'')" "same_dims im'' im'"
      using mandelbrot_ok [OF ne ch] by blast
    have fl: "flagged_in_slice im' ratio i task_size = flagged_in_slice im ratio i task_size"
      using sd by (rule flagged_in_slice_dims)
    have sd'': "same_dims im'' im" using m(2) sd by (simp add: same_dims_def)
    have "\<forall>t. 0 \<le> t \<and> t < i + 1 \<longrightarrow>
        (locals[nat i := flagged_in_slice im ratio i task_size]) ! nat t = flagged_in_slice im ratio t task_size"
    proof (intro allI impI)
      fix t assume t: "0 \<le> t \<and> t < i + 1"
      show "(locals[nat i := flagged_in_slice im ratio i task_size]) ! nat t = flagged_in_slice im ratio t task_size"
      proof (cases "t = i")
        case True
        then show ?thesis using len i by simp
      next
        case False
        then have "nat t \<noteq> nat i" "t < i" using t i by auto
        then show ?thesis using old t by simp
      qed
    qed
    then have "?I (i + 1) (locals[nat i := flagged_in_slice im ratio i task_size], im'')"
      using len sd'' by simp
    then show "\<exists>t'. ?body i s = Inr t' \<and> ?I (i + 1) t'"
      using m(1) fl by simp
  qed
  then obtain locals im' where r: "for_loop 0 task_size ?body (replicate (nat task_size) 0, im) = Inr (locals, im')"
    "?I (max 0 task_size) (locals, im')" by auto
  have mx: "max 0 task_size = task_size" using assms(1) by simp
  from r(1) have "fractal_stage colorize im ratio task_size = Inr (sum_list locals, locals, im')"
    using assms(1) by (simp add: fractal_stage_def foldl_plus)
  with r(2) show ?thesis unfolding mx by auto
qed

text \<open>
  Claim C2, on the code. For every image of at most 3 channels, every ratio and every
  task count \<open>task_size > 0\<close>: one task returns, as its local count, the number of pixels
  of its slice for which the kernel returns true; and the stage returns the sum of the
  local counts of its tasks, entry \<open>t\<close> of the vector being the count of the slice of task
  \<open>t\<close>. The kernel returns true for the points whose loop stops before the budget is
  exhausted, so the counts are of the pixels that escape, not of the set members.
\<close>

theorem fractal_counts:
  assumes "0 < task_size" "channels im \<le> 3"
  shows "(\<exists>im'. mandelbrot colorize im ratio task_num task_size =
             Inr (flagged_in_slice im ratio task_num task_size, im')) \<and>
         (\<exists>locals im'. fractal_stage colorize im ratio task_size = Inr (sum_list locals, locals, im') \<and>
             length locals = nat task_size \<and>
             (\<forall>t. 0 \<le> t \<and> t < task_size \<longrightarrow>
                  locals ! nat t = flagged_in_slice im ratio t task_size)) \<and>
         (\<forall>c p. fst (mandelbrot_kernel colorize c p) = kernel_flag c)"
proof -
  have ne: "task_size \<noteq> 0" using assms(1) by simp
  show ?thesis
    using mandelbrot_ok [OF ne assms(2), of colorize ratio task_num]
      fractal_stage_ok [OF assms, of colorize ratio] kernel_fst [of colorize]
    by blast
qed

lemma cmod_le_iff: "0 \<le> r \<Longrightarrow> cmod z \<le> r \<longleftrightarrow> (Re z)\<^sup>2 + (Im z)\<^sup>2 \<le> r\<^sup>2"
proof -
  assume r: "0 \<le> r"
  have "cmod z \<le> r \<longleftrightarrow> sqrt ((Re z)\<^sup>2 + (Im z)\<^sup>2) \<le> sqrt (r\<^sup>2)"
    using r by (simp add: cmod_def)
  also have "\<dots> \<longleftrightarrow> (Re z)\<^sup>2 + (Im z)\<^sup>2 \<le> r\<^sup>2"
    by (rule real_sqrt_le_iff)
  finally show ?thesis .
qed

lemma flag_example: "kernel_flag (Complex 3 (- 7 / 20))"
  by (simp add: kernel_flag_def mandelbrot_loop.simps cmod_le_iff
      max_iterations_def power2_eq_square)

lemma flagged_tiny: "flagged_in_slice tiny_image 82 1 2 = 1"
proof -
  have a: "{1..<2::int} = {1}" "{0..<1::int} = {0}" by auto
  have p: "pixel_point 2 1 (41 / 5) 1 0 = Complex 3 (- 7 / 20)"
    by (simp add: pixel_point_def)
  show ?thesis
    using flag_example
    by (simp add: flagged_in_slice_sum tiny_image_def task_begin_def task_end_def
        signed_divide_int_def a p del: sum_of_bool_eq)
qed

text \<open>
  The slice of task 1 of 2 of the two-column image has one pixel. Its point is
  \<open>3 - 0.35i\<close>, which escapes: the loop stops after 2 iterations. The task counts it.
\<close>

theorem fractal_counts_witness:
  "snd (mandelbrot_loop (pixel_point 2 1 (82 / 10) 1 0) 0 0) = 2 \<and>
   (\<exists>im'. mandelbrot (\<lambda>p q n. p) tiny_image 82 1 2 = Inr (1, im')) \<and>
   (\<exists>locals im'. fractal_stage (\<lambda>p q n. p) tiny_image 82 2 = Inr (sum_list locals, locals, im') \<and>
       length locals = 2 \<and> locals ! 1 = 1)"
proof -
  have h: "(0::int) < 2" "channels tiny_image \<le> 3" by (simp_all add: tiny_image_def)
  note t = fractal_counts [OF h, of "\<lambda>p q n. p" 82 1]
  from t obtain locals im' where l:
    "fractal_stage (\<lambda>p q n. p) tiny_image 82 2 = Inr (sum_list locals, locals, im')"
    "length locals = nat 2"
    "\<forall>t. 0 \<le> t \<and> t < 2 \<longrightarrow> locals ! nat t = flagged_in_slice tiny_image 82 t 2"
    by blast
  have "locals ! 1 = 1" using l(3) [rule_format, of 1] by (simp add: flagged_tiny)
  moreover have "snd (mandelbrot_loop (pixel_point 2 1 (82 / 10) 1 0) 0 0) = 2"
    by (simp add: pixel_point_def mandelbrot_loop.simps cmod_le_iff max_iterations_def
        power2_eq_square)
  ultimately show ?thesis using l t by (auto simp: flagged_tiny)
qed

text \<open>
  Claim C10. The channel loop of the fractal stage reads the 3-entry pixel buffer at every
  index below the channel count: all its reads are in range exactly when the count is
  at most 3. With at most 3 channels (and a task count that is not zero) a whole task
  runs without an error, so no index outside the buffer is used.
\<close>

theorem pixel_buffer_in_bounds:
  "((\<exists>im'. write_pixel p chans j i im = Inr im') \<longleftrightarrow> chans \<le> 3) \<and>
   (task_size \<noteq> 0 \<and> channels im \<le> 3 \<longrightarrow>
      (\<exists>r. mandelbrot colorize im ratio task_num task_size = Inr r))"
proof -
  have "\<exists>im'. write_pixel p chans j i im = Inr im'" if "chans \<le> 3"
    using write_pixel_ok [OF that] by blast
  moreover have "\<not> (\<exists>im'. write_pixel p chans j i im = Inr im')" if "\<not> chans \<le> 3"
    using write_pixel_fails [of chans] that by simp
  moreover have "\<exists>r. mandelbrot colorize im ratio task_num task_size = Inr r"
    if "task_size \<noteq> 0" "channels im \<le> 3"
    using mandelbrot_ok [OF that] by blast
  ultimately show ?thesis by blast
qed

theorem pixel_buffer_in_bounds_witness:
  "(\<exists>im'. write_pixel (1, 2, 3) 3 0 0 tiny_image = Inr im') \<and>
   write_pixel (1, 2, 3) 4 0 0 tiny_image = Inl PixelIndexOutOfRange \<and>
   (\<exists>r. mandelbrot (\<lambda>p q n. p) tiny_image 82 1 2 = Inr r)"
proof -
  have a: "\<exists>im'. write_pixel (1, 2, 3) 3 0 0 tiny_image = Inr im'"
    using pixel_buffer_in_bounds [of "(1, 2, 3)" 3 0 0 tiny_image] by simp
  have b: "\<exists>r. mandelbrot (\<lambda>p q n. p) tiny_image 82 1 2 = Inr r"
    using pixel_buffer_in_bounds [of _ _ _ _ tiny_image 2 "\<lambda>p q n. p" 82 1]
    by (simp add: tiny_image_def)
  have c: "write_pixel (1, 2, 3) 4 0 0 tiny_image = Inl PixelIndexOutOfRange"
    by (simp add: write_pixel_def for_loop.simps pixel_at_def)
  from a b c show ?thesis by simp
qed

section \<open>Properties of the convolution kernel\<close>

lemma neighbor_step_outside:
  "cx < 0 \<or> cx > w - 1 \<or> cy < 0 \<or> cy > h - 1 \<Longrightarrow> cy = i + k \<Longrightarrow> cx = j + l \<Longrightarrow>
   neighbor_step kern source w h displ ch i j k l val = Inr val"
  by (simp add: neighbor_step_def Let_def)

lemma kernel_at_ok:
  assumes "square_odd kern" "displ = int (length kern div 2)"
    "- displ \<le> k" "k \<le> displ" "- displ \<le> l" "l \<le> displ"
  shows "kernel_at kern (k + displ) (l + displ) = Inr (kern ! nat (k + displ) ! nat (l + displ))"
proof -
  have odd: "odd (length kern)" using assms(1) by (simp add: square_odd_def)
  then have len: "int (length kern) = 2 * displ + 1"
    using assms(2) by (auto elim!: oddE)
  have a: "0 \<le> k + displ" "k + displ < int (length kern)" using assms(3,4) len by auto
  then have "nat (k + displ) < length kern" by linarith
  then have "kern ! nat (k + displ) \<in> set kern" by simp
  then have row: "length (kern ! nat (k + displ)) = length kern"
    using assms(1) by (simp add: square_odd_def)
  have b: "0 \<le> l + displ" "l + displ < int (length kern)" using assms(5,6) len by auto
  show ?thesis using a b row by (simp add: kernel_at_def Let_def)
qed

lemma neighbor_step_padded:
  assumes "square_odd kern" "displ = int (length kern div 2)"
    "- displ \<le> k" "k \<le> displ" "- displ \<le> l" "l \<le> displ"
  shows "neighbor_step kern source w h displ ch i j k l val =
     Inr (val + kern ! nat (k + displ) ! nat (l + displ) *
            real_of_int (padded source w h ch (i + k) (j + l)))"
  using kernel_at_ok [OF assms]
  by (auto simp: neighbor_step_def Let_def padded_def)

lemma sum_real_snoc:
  fixes f :: "int \<Rightarrow> real"
  shows "a \<le> b \<Longrightarrow> (\<Sum>i\<in>{a..<b + 1}. f i) = (\<Sum>i\<in>{a..<b}. f i) + f b"
proof -
  assume "a \<le> b"
  then have "{a..<b + 1} = insert b {a..<b}" by auto
  then show ?thesis by simp
qed

lemma for_loop_sum:
  fixes f :: "int \<Rightarrow> real"
  assumes "\<And>i v. a \<le> i \<Longrightarrow> i < b \<Longrightarrow> body i v = Inr (v + f i)"
  shows "for_loop a b body v0 = Inr (v0 + (\<Sum>i\<in>{a..<b}. f i))"
proof -
  have "\<exists>s'. for_loop a b body v0 = Inr s' \<and> (\<lambda>i v. v = v0 + (\<Sum>i\<in>{a..<i}. f i)) (max a b) s'"
  proof (rule for_loop_total)
    show "v0 = v0 + (\<Sum>i\<in>{a..<a}. f i)" by simp
  next
    fix i t assume "a \<le> i" "i < b" "t = v0 + (\<Sum>i\<in>{a..<i}. f i)"
    then show "\<exists>t'. body i t = Inr t' \<and> t' = v0 + (\<Sum>i\<in>{a..<i + 1}. f i)"
      using assms [of i t] by (simp add: sum_real_snoc)
  qed
  moreover have "{a..<max a b} = {a..<b}" by auto
  ultimately show ?thesis by auto
qed

lemma neighborhood_sum_padded:
  assumes "square_odd kern" "displ = int (length kern div 2)"
  shows "neighborhood_sum kern source w h displ ch i j = Inr (padded_sum kern source w h displ ch i j)"
proof -
  let ?g = "\<lambda>k l. kern ! nat (k + displ) ! nat (l + displ) *
            real_of_int (padded source w h ch (i + k) (j + l))"
  have iv: "{- displ..<displ + 1} = {- displ..displ}" by auto
  have inner: "for_loop (- displ) (displ + 1) (\<lambda>l. neighbor_step kern source w h displ ch i j k l) v =
      Inr (v + (\<Sum>l\<in>{- displ..displ}. ?g k l))" if "- displ \<le> k" "k < displ + 1" for k v
  proof -
    have "for_loop (- displ) (displ + 1) (\<lambda>l. neighbor_step kern source w h displ ch i j k l) v =
      Inr (v + (\<Sum>l\<in>{- displ..<displ + 1}. ?g k l))"
      by (rule for_loop_sum) (use that in \<open>simp add: neighbor_step_padded [OF assms]\<close>)
    then show ?thesis by (simp only: iv)
  qed
  have "for_loop (- displ) (displ + 1)
       (\<lambda>k. for_loop (- displ) (displ + 1) (\<lambda>l. neighbor_step kern source w h displ ch i j k l)) 0 =
      Inr (0 + (\<Sum>k\<in>{- displ..<displ + 1}. \<Sum>l\<in>{- displ..displ}. ?g k l))"
    by (rule for_loop_sum) (simp add: inner)
  then show ?thesis by (simp add: neighborhood_sum_def padded_sum_def iv)
qed


text \<open>
  Claim C7. In the weighted neighborhood sum, for every target pixel and channel, every
  kernel matrix and every source image, a neighbor whose coordinate is outside
  \<open>[0, w) \<times> [0, h)\<close> leaves the accumulator as it is: it contributes exactly zero, and the
  kernel is not even read. For a square kernel of odd side the sum that the loops compute
  is the weighted sum over the whole window of the source padded with zeros (no
  reflection, no wrapping, no clamping to the edge).
\<close>

theorem neighbor_zero_padding:
  "(j + l < 0 \<or> j + l > w - 1 \<or> i + k < 0 \<or> i + k > h - 1 \<longrightarrow>
      neighbor_step kern source w h displ ch i j k l val = Inr val) \<and>
   (square_odd kern \<and> displ = int (length kern div 2) \<longrightarrow>
      neighborhood_sum kern source w h displ ch i j =
        Inr (padded_sum kern source w h displ ch i j))"
  using neighbor_step_outside [of "j + l" w "i + k" h i k j l kern source displ ch val]
    neighborhood_sum_padded [of kern displ source w h ch i j]
  by blast

lemma square_odd_ninth: "square_odd (ninth_kernel 3 3 sigma)"
  by (simp add: square_odd_def ninth_kernel_def)

lemma ninth_displ: "int (length (ninth_kernel 3 3 sigma) div 2) = 1"
  by (simp add: ninth_kernel_def)

lemma ninth_nth: "ninth_kernel 3 3 sigma = [[1/9, 1/9, 1/9], [1/9, 1/9, 1/9], [1/9, 1/9, 1/9]]"
  by (simp add: ninth_kernel_def numeral_3_eq_3)

lemma window_1: "{- 1 .. 1 :: int} = {- 1, 0, 1}"
  by auto

lemma corner_sum: "padded_sum (ninth_kernel 3 3 sigma) white_image 4 4 1 0 0 3 = 340 / 3"
  by (simp add: padded_sum_def window_1 padded_def img_get_def white_image_def ninth_nth)

theorem neighbor_zero_padding_witness:
  "neighbor_step (ninth_kernel 3 3 1) white_image 4 4 1 0 0 3 (- 1) 1 5 = Inr 5 \<and>
   neighborhood_sum (ninth_kernel 3 3 1) white_image 4 4 1 0 0 3 = Inr (340 / 3)"
proof -
  note t = neighbor_zero_padding [of 3 1 4 0 "- 1" 4 "ninth_kernel 3 3 1" white_image 1 0 5]
  have a: "neighbor_step (ninth_kernel 3 3 1) white_image 4 4 1 0 0 3 (- 1) 1 5 = Inr 5"
    using t [THEN conjunct1] by simp
  have b: "neighborhood_sum (ninth_kernel 3 3 1) white_image 4 4 1 0 0 3 = Inr (340 / 3)"
    using t [THEN conjunct2] by (simp add: square_odd_ninth ninth_displ corner_sum)
  from a b show ?thesis by simp
qed

section \<open>Properties of one convolution task\<close>

lemma writes_refl: "writes W {} t t"
  by (simp add: writes_def same_dims_def)

lemma writes_trans:
  assumes "writes W S1 t t1" "writes W S2 t1 t2"
  shows "writes W (S1 \<union> S2) t t2"
  using assms unfolding writes_def same_dims_def by (auto; metis)

lemma for_loop_writes:
  assumes loop: "for_loop a b body t = Inr t'"
    and body: "\<And>i u u'. a \<le> i \<Longrightarrow> i < b \<Longrightarrow> body i u = Inr u' \<Longrightarrow> writes W (S i) u u'"
  shows "writes W (\<Union>i\<in>{a..<b}. S i) t t'"
proof -
  have "(\<lambda>i u. writes W (\<Union>k\<in>{a..<i}. S k) t u) (max a b) t'"
  proof (rule for_loop_partial [OF loop])
    show "writes W (\<Union>k\<in>{a..<a}. S k) t t" by (simp add: writes_refl)
  next
    fix i u u' assume i: "a \<le> i" "i < b" and u: "writes W (\<Union>k\<in>{a..<i}. S k) t u"
      and b: "body i u = Inr u'"
    have "{a..<i + 1} = insert i {a..<i}" using i by auto
    then have "(\<Union>k\<in>{a..<i + 1}. S k) = (\<Union>k\<in>{a..<i}. S k) \<union> S i" by auto
    then show "writes W (\<Union>k\<in>{a..<i + 1}. S k) t u'"
      using writes_trans [OF u body [OF i b]] by simp
  qed
  moreover have "{a..<max a b} = {a..<b}" by auto
  ultimately show ?thesis by simp
qed

lemma for_loop_succeeds:
  assumes "\<And>i u. a \<le> i \<Longrightarrow> i < b \<Longrightarrow> \<exists>u'. body i u = Inr u'"
  shows "\<exists>t'. for_loop a b body t = Inr t'"
proof -
  have "\<exists>s'. for_loop a b body t = Inr s' \<and> (\<lambda>i u. True) (max a b) s'"
    by (rule for_loop_total) (use assms in auto)
  then show ?thesis by blast
qed

lemma convolve_pixel_writes:
  assumes "convolve_pixel kern w h displ j ch i t = Inr t'"
  shows "writes (stored kern w h displ) {(ch, i, j)} t t'"
  using assms
  by (auto simp: convolve_pixel_def writes_def stored_def same_dims_def img_set_def
      split: sum.splits)

lemma helper_loops_writes:
  assumes "for_loop a b (\<lambda>j. for_loop 0 chans (\<lambda>ch. for_loop 0 h
               (\<lambda>i. convolve_pixel kern w h displ j ch i))) t = Inr t'"
  shows "writes (stored kern w h displ)
           {(ch, i, j). a \<le> j \<and> j < b \<and> 0 \<le> ch \<and> ch < chans \<and> 0 \<le> i \<and> i < h} t t'"
proof -
  let ?W = "stored kern w h displ"
  have rows: "writes ?W (\<Union>i\<in>{0..<h}. {(ch, i, j)}) u u'"
    if "for_loop 0 h (\<lambda>i. convolve_pixel kern w h displ j ch i) u = Inr u'" for j ch u u'
    using that by (rule for_loop_writes) (rule convolve_pixel_writes)
  have chs: "writes ?W (\<Union>ch\<in>{0..<chans}. \<Union>i\<in>{0..<h}. {(ch, i, j)}) u u'"
    if "for_loop 0 chans (\<lambda>ch. for_loop 0 h (\<lambda>i. convolve_pixel kern w h displ j ch i)) u = Inr u'"
    for j u u'
    using that by (rule for_loop_writes) (rule rows)
  have "writes ?W (\<Union>j\<in>{a..<b}. \<Union>ch\<in>{0..<chans}. \<Union>i\<in>{0..<h}. {(ch, i, j)}) t t'"
    using assms by (rule for_loop_writes) (rule chs)
  moreover have "(\<Union>j\<in>{a..<b}. \<Union>ch\<in>{0..<chans}. \<Union>i\<in>{0..<h}. {(ch, i, j)}) =
      {(ch, i, j). a \<le> j \<and> j < b \<and> 0 \<le> ch \<and> ch < chans \<and> 0 \<le> i \<and> i < h}"
    by auto
  ultimately show ?thesis by simp
qed

lemma helper_writes:
  assumes "convolution_2d_helper gk st kernel_width sigma nsteps task_num task_size = Inr st'"
  shows "writes (stored (gk kernel_width kernel_width sigma) (width (src st)) (height (src st))
                   (int (length (gk kernel_width kernel_width sigma) div 2)))
           (task_region (src st) task_num task_size) st st'"
proof -
  have ne: "task_size \<noteq> 0"
    using assms by (auto simp: convolution_2d_helper_def Let_def split: if_splits)
  have "task_region (src st) task_num task_size =
      {(ch, i, j). task_begin (width (src st)) task_num task_size \<le> j \<and>
         j < task_end (width (src st)) task_num task_size \<and>
         0 \<le> ch \<and> ch < channels (src st) \<and> 0 \<le> i \<and> i < height (src st)}"
    by (auto simp: task_region_def task_range_def)
  moreover have "writes (stored (gk kernel_width kernel_width sigma) (width (src st)) (height (src st))
                   (int (length (gk kernel_width kernel_width sigma) div 2)))
      {(ch, i, j). task_begin (width (src st)) task_num task_size \<le> j \<and>
         j < task_end (width (src st)) task_num task_size \<and>
         0 \<le> ch \<and> ch < channels (src st) \<and> 0 \<le> i \<and> i < height (src st)} st st'"
    by (rule helper_loops_writes) (use assms ne in \<open>simp add: convolution_2d_helper_def Let_def\<close>)
  ultimately show ?thesis by simp
qed

lemma convolve_pixel_succeeds:
  assumes "square_odd kern" "displ = int (length kern div 2)"
  shows "\<exists>t'. convolve_pixel kern w h displ j ch i t = Inr t'"
  by (simp add: convolve_pixel_def neighborhood_sum_padded [OF assms])

lemma helper_succeeds:
  assumes "task_size \<noteq> 0" "square_odd (gk kernel_width kernel_width sigma)"
  shows "\<exists>st'. convolution_2d_helper gk st kernel_width sigma nsteps task_num task_size = Inr st'"
proof -
  let ?kern = "gk kernel_width kernel_width sigma"
  let ?displ = "int (length ?kern div 2)"
  have "\<exists>t'. for_loop a b (\<lambda>j. for_loop 0 chans (\<lambda>ch. for_loop 0 h
               (\<lambda>i. convolve_pixel ?kern w h ?displ j ch i))) t = Inr t'" for a b chans h w t
    by (intro for_loop_succeeds convolve_pixel_succeeds [OF assms(2) refl])
  then show ?thesis using assms(1) by (simp add: convolution_2d_helper_def Let_def)
qed


text \<open>
  Claim C9. One task invocation of \<^verbatim>\<open>convolution_2d_helper\<close>, with task index \<open>task_num\<close>
  and task count \<open>task_size\<close>, when it returns, has left the source image unchanged, the
  dimensions of the destination unchanged, and every destination entry whose column is
  outside the range of the task unchanged. It does return when the task count is not zero
  and the kernel is square of odd side.
\<close>

theorem helper_frame:
  "(convolution_2d_helper gk st kernel_width sigma nsteps task_num task_size = Inr st' \<longrightarrow>
      src st' = src st \<and> same_dims (dst st') (dst st) \<and>
      (\<forall>ch i j. j \<notin> task_range (width (src st)) task_num task_size \<longrightarrow>
         img_get (dst st') ch i j = img_get (dst st) ch i j)) \<and>
   (task_size \<noteq> 0 \<and> square_odd (gk kernel_width kernel_width sigma) \<longrightarrow>
      (\<exists>st'. convolution_2d_helper gk st kernel_width sigma nsteps task_num task_size = Inr st'))"
proof -
  have "src st' = src st \<and> same_dims (dst st') (dst st) \<and>
      (\<forall>ch i j. j \<notin> task_range (width (src st)) task_num task_size \<longrightarrow>
         img_get (dst st') ch i j = img_get (dst st) ch i j)"
    if "convolution_2d_helper gk st kernel_width sigma nsteps task_num task_size = Inr st'"
    using helper_writes [OF that] by (auto simp: writes_def task_region_def img_get_def)
  then show ?thesis using helper_succeeds [of task_size gk kernel_width sigma st nsteps task_num]
    by blast
qed


theorem helper_frame_witness:
  "\<exists>st'. convolution_2d_helper ninth_kernel \<lparr>src = white_image, dst = black_image\<rparr> 3 1 1 1 2 = Inr st' \<and>
     src st' = white_image \<and> img_get (dst st') 0 0 0 = 0 \<and> img_get (dst st') 0 3 1 = 0"
proof -
  let ?st = "\<lparr>src = white_image, dst = black_image\<rparr>"
  obtain st' where st': "convolution_2d_helper ninth_kernel ?st 3 1 1 1 2 = Inr st'"
    using helper_frame [of ninth_kernel ?st 3 1 1 1 2, THEN conjunct2]
    by (auto simp: square_odd_ninth)
  have r: "task_range 4 1 2 = {2..<4}"
    by (auto simp: task_range_def task_begin_def task_end_def signed_divide_int_def)
  have "src st' = white_image \<and> img_get (dst st') 0 0 0 = 0 \<and> img_get (dst st') 0 3 1 = 0"
    using helper_frame [of ninth_kernel ?st 3 1 1 1 2 st', THEN conjunct1] st'
    by (simp add: r white_image_def black_image_def img_get_def)
  with st' show ?thesis by blast
qed


section \<open>Properties of the multi-pass driver\<close>

lemma for_loop_fixed:
  assumes "\<And>i. a \<le> i \<Longrightarrow> i < b \<Longrightarrow> body i s = Inr s"
  shows "for_loop a b body s = Inr s"
proof -
  have "\<exists>s'. for_loop a b body s = Inr s' \<and> (\<lambda>i u. u = s) (max a b) s'"
    by (rule for_loop_total) (use assms in auto)
  then show ?thesis by simp
qed

lemma helper_nsteps:
  "convolution_2d_helper gk st kernel_width sigma nsteps task_num task_size =
   convolution_2d_helper gk st kernel_width sigma 1 task_num task_size"
  by (simp add: convolution_2d_helper_def)

lemma pass_nsteps:
  "convolution_pass gk kernel_width sigma nsteps task_size =
   convolution_pass gk kernel_width sigma 1 task_size"
  unfolding convolution_pass_def by (subst helper_nsteps) (rule refl)

lemma sum_case_eta: "(case x of Inl e \<Rightarrow> Inl e | Inr y \<Rightarrow> Inr y) = x"
  by (cases x) simp_all

lemma one_pass:
  "convolution_2d gk source dest kernel_width sigma 1 =
   convolution_pass gk kernel_width sigma 1 256 \<lparr>src = source, dst = dest\<rparr>"
  by (simp add: convolution_2d_def for_loop_step for_loop_empty sum_case_eta
      split: sum.splits)

lemma driver_unfold:
  "convolution_2d gk source dest kernel_width sigma (int (Suc m)) =
     (case for_loop 0 (int m)
             (\<lambda>step st. case convolution_pass gk kernel_width sigma 1 256 st of
                           Inl e \<Rightarrow> Inl e | Inr st' \<Rightarrow> Inr (swap_bufs st'))
             \<lparr>src = source, dst = dest\<rparr> of
        Inl e \<Rightarrow> Inl e
      | Inr st' \<Rightarrow> convolution_pass gk kernel_width sigma 1 256 st')"
proof -
  let ?n = "int (Suc m)"
  let ?body = "\<lambda>step st.
              case convolution_pass gk kernel_width sigma ?n 256 st of
                Inl e \<Rightarrow> Inl e
              | Inr st' \<Rightarrow> Inr (if step < ?n - 1 then swap_bufs st' else st')"
  let ?Q = "\<lambda>step st. case convolution_pass gk kernel_width sigma 1 256 st of
                           Inl e \<Rightarrow> Inl e | Inr st' \<Rightarrow> Inr (swap_bufs st')"
  have n: "?n = int m + 1" by simp
  have first: "for_loop 0 (int m) ?body s = for_loop 0 (int m) ?Q s" for s
    by (rule for_loop_cong)
      (simp add: pass_nsteps [of gk kernel_width sigma "1 + int m"] split: sum.splits)
  have last: "?body (int m) s = convolution_pass gk kernel_width sigma 1 256 s" for s
    by (simp add: pass_nsteps [of gk kernel_width sigma "1 + int m"] sum_case_eta
        split: sum.splits)
  have "for_loop 0 ?n ?body s =
      (case for_loop 0 (int m) ?body s of Inl e \<Rightarrow> Inl e | Inr s' \<Rightarrow> ?body (int m) s')" for s
    unfolding n by (rule for_loop_snoc) simp
  then show ?thesis
    unfolding convolution_2d_def Let_def first last by simp
qed

lemma swap_bufs_eq: "swap_bufs st = \<lparr>src = dst st, dst = src st\<rparr>"
  by (cases st) (simp add: swap_bufs_def)

lemma alternating_unfold:
  "alternating_passes P (Suc m) st =
     (case for_loop 0 (int m)
             (\<lambda>step st. case P st of Inl e \<Rightarrow> Inl e | Inr st' \<Rightarrow> Inr (swap_bufs st')) st of
        Inl e \<Rightarrow> Inl e
      | Inr st' \<Rightarrow> P st')"
proof (induction m)
  case 0
  then show ?case by (simp add: for_loop_empty)
next
  case (Suc m)
  have e: "int (Suc m) = int m + 1" by simp
  have snoc: "for_loop 0 (int (Suc m)) body st =
      (case for_loop 0 (int m) body st of Inl e \<Rightarrow> Inl e | Inr s' \<Rightarrow> body (int m) s')"
    for body :: "int \<Rightarrow> conv_bufs \<Rightarrow> error + conv_bufs"
    unfolding e by (rule for_loop_snoc) simp
  show ?case
    unfolding alternating_passes.simps Suc.IH snoc
    by (simp add: swap_bufs_eq split: sum.splits)
qed

text \<open>
  Claim C4. For every source and destination image, kernel width, sigma and pass count
  \<open>k \<ge> 1\<close>, the multi-pass driver with \<open>nsteps = k\<close> returns what \<open>k\<close> applications of the
  single-pass function (the driver with \<open>nsteps = 1\<close>) return when the buffers are
  alternated between passes; and its result is, as it stands, the result of a single
  pass: no swap follows the last pass, so the final image is in the destination of the
  last pass.
\<close>

theorem multi_pass_alternates:
  assumes "1 \<le> k"
  shows "convolution_2d gk source dest kernel_width sigma (int k) =
           alternating_passes (\<lambda>st. convolution_2d gk (src st) (dst st) kernel_width sigma 1) k
             \<lparr>src = source, dst = dest\<rparr> \<and>
         (\<forall>r. convolution_2d gk source dest kernel_width sigma (int k) = Inr r \<longrightarrow>
              (\<exists>st :: conv_bufs. convolution_2d gk (src st) (dst st) kernel_width sigma 1 = Inr r))"
proof -
  obtain m where k: "k = Suc m" using assms by (cases k) auto
  let ?P = "convolution_pass gk kernel_width sigma 1 256"
  have P: "convolution_2d gk (src st) (dst st) kernel_width sigma 1 = ?P st" for st
    by (cases st) (simp add: one_pass)
  have eq: "convolution_2d gk source dest kernel_width sigma (int k) =
      alternating_passes ?P k \<lparr>src = source, dst = dest\<rparr>"
    unfolding k driver_unfold alternating_unfold by (rule refl)
  have c1: "convolution_2d gk source dest kernel_width sigma (int k) =
           alternating_passes (\<lambda>st. convolution_2d gk (src st) (dst st) kernel_width sigma 1) k
             \<lparr>src = source, dst = dest\<rparr>"
  proof -
    have "(\<lambda>st. convolution_2d gk (src st) (dst st) kernel_width sigma 1) = ?P"
      by (rule ext) (rule P)
    then show ?thesis using eq by (simp only:)
  qed
  have c2: "\<exists>st :: conv_bufs. convolution_2d gk (src st) (dst st) kernel_width sigma 1 = Inr r"
    if "convolution_2d gk source dest kernel_width sigma (int k) = Inr r" for r
  proof -
    have "\<exists>st. ?P st = Inr r"
      using that unfolding k driver_unfold by (auto split: sum.splits)
    then obtain st where "?P st = Inr r" by blast
    then have "convolution_2d gk (src st) (dst st) kernel_width sigma 1 = Inr r"
      by (simp only: P)
    then show ?thesis by blast
  qed
  from c1 c2 show ?thesis by blast
qed

lemma task_empty_small:
  "0 \<le> w \<Longrightarrow> w < 256 \<Longrightarrow> task_begin w t 256 = 0 \<and> task_end w t 256 = 0"
  by (simp add: task_begin_def task_end_def sdiv_nonneg)

lemma helper_noop:
  assumes "task_size \<noteq> 0"
    and "task_end (width (src st)) task_num task_size \<le> task_begin (width (src st)) task_num task_size
         \<or> height (src st) \<le> 0"
  shows "convolution_2d_helper gk st kernel_width sigma nsteps task_num task_size = Inr st"
proof -
  from assms(2) have "for_loop (task_begin (width (src st)) task_num task_size)
      (task_end (width (src st)) task_num task_size)
      (\<lambda>j. for_loop 0 chans (\<lambda>ch. for_loop 0 (height (src st)) (body j ch))) st = Inr st"
    for chans and body :: "int \<Rightarrow> int \<Rightarrow> int \<Rightarrow> conv_bufs \<Rightarrow> error + conv_bufs"
  proof
    assume "task_end (width (src st)) task_num task_size \<le> task_begin (width (src st)) task_num task_size"
    then show ?thesis by (rule for_loop_empty)
  next
    assume "height (src st) \<le> 0"
    then show ?thesis by (intro for_loop_fixed for_loop_empty)
  qed
  then show ?thesis using assms(1) by (simp add: convolution_2d_helper_def Let_def)
qed

lemma pass_noop:
  assumes "(0 \<le> width (src st) \<and> width (src st) < 256) \<or> height (src st) \<le> 0"
  shows "convolution_pass gk kernel_width sigma nsteps 256 st = Inr st"
  unfolding convolution_pass_def
proof (rule for_loop_fixed)
  fix i :: int
  have "task_end (width (src st)) i 256 \<le> task_begin (width (src st)) i 256 \<or> height (src st) \<le> 0"
    using assms task_empty_small [of "width (src st)" i] by auto
  then show "convolution_2d_helper gk st kernel_width sigma nsteps i 256 = Inr st"
    by (intro helper_noop) simp_all
qed

theorem multi_pass_alternates_witness:
  "convolution_2d ninth_kernel white_image black_image 3 1 2 =
     alternating_passes (\<lambda>st. convolution_2d ninth_kernel (src st) (dst st) 3 1 1) 2
       \<lparr>src = white_image, dst = black_image\<rparr> \<and>
   convolution_2d ninth_kernel white_image black_image 3 1 2 =
     Inr \<lparr>src = black_image, dst = white_image\<rparr>"
proof -
  have h: "1 \<le> (2::nat)" by simp
  have e: "convolution_2d ninth_kernel white_image black_image 3 1 2 =
     alternating_passes (\<lambda>st. convolution_2d ninth_kernel (src st) (dst st) 3 1 1) 2
       \<lparr>src = white_image, dst = black_image\<rparr>"
    using multi_pass_alternates [OF h, of ninth_kernel white_image black_image 3 1] by simp
  have p: "convolution_2d ninth_kernel a b 3 1 1 = Inr \<lparr>src = a, dst = b\<rparr>"
    if "width a = 4" for a b
    using that by (simp add: one_pass pass_noop)
  have "alternating_passes (\<lambda>st. convolution_2d ninth_kernel (src st) (dst st) 3 1 1) 2
       \<lparr>src = white_image, dst = black_image\<rparr> = Inr \<lparr>src = black_image, dst = white_image\<rparr>"
    by (simp add: numeral_2_eq_2 p white_image_def black_image_def)
  with e show ?thesis by simp
qed





end
